theory Spec2Isabelle
  imports Main "HOL-Library.AList"
begin

section \<open>Graph model\<close>

text \<open>
  The program works on a \<^verbatim>\<open>networkx.Graph\<close> whose nodes are the integers \<open>0..N-1\<close>.
  Such a graph is a dictionary from each node to the dictionary of its neighbours, both in
  insertion order. It is modelled as an association list: the keys, in order, are what
  \<^verbatim>\<open>G.nodes\<close> iterates over, and the list stored under a node is what
  \<^verbatim>\<open>G.neighbors(node)\<close> iterates over. Asking for the neighbours of a node that is
  not in the graph raises \<^verbatim>\<open>NetworkXError\<close>.
\<close>

type_synonym node = nat

type_synonym graph = "(node \<times> node list) list"

datatype error = NetworkXError | KeyError | ValueError | IndexError | ZeroDivisionError

text \<open>A traversal result: the visited nodes in order, each with its depth.\<close>

type_synonym traversal = "(node \<times> nat) list"

definition nodes :: "graph \<Rightarrow> node list" where
  "nodes G = map fst G"

definition neighbors :: "graph \<Rightarrow> node \<Rightarrow> error + node list" where
  "neighbors G v = (case map_of G v of None \<Rightarrow> Inl NetworkXError | Some ns \<Rightarrow> Inr ns)"

text \<open>
  An undirected simple graph: every node is stored once, a node's neighbours are listed once
  each, no node is its own neighbour, and adjacency is symmetric (so every neighbour is a
  node of the graph).
\<close>

definition simple_graph :: "graph \<Rightarrow> bool" where
  "simple_graph G \<longleftrightarrow>
     distinct (map fst G) \<and>
     (\<forall>(v, ns) \<in> set G. distinct ns \<and> v \<notin> set ns \<and>
        (\<forall>u \<in> set ns. case map_of G u of None \<Rightarrow> False | Some ms \<Rightarrow> v \<in> set ms))"

definition adjacent :: "graph \<Rightarrow> node \<Rightarrow> node \<Rightarrow> bool" where
  "adjacent G u v \<longleftrightarrow> (case map_of G u of None \<Rightarrow> False | Some ns \<Rightarrow> v \<in> set ns)"



section \<open>Greedy colouring\<close>

text \<open>
  The result dictionary of \<^verbatim>\<open>greedy_coloring\<close> is an association list in insertion
  order. \<^verbatim>\<open>result.get(neigh)\<close> is \<open>None\<close> for a neighbour without a colour yet, so the
  collected colours are optional numbers; the collection is only ever tested for
  membership.
\<close>

type_synonym coloring = "(node \<times> nat) list"

function color_loop :: "nat option list \<Rightarrow> nat \<Rightarrow> nat" where
  "color_loop neighbor_colors color =
     (if Some color \<in> set neighbor_colors then color_loop neighbor_colors (color + 1)
      else color)"
  by pat_completeness auto

lemma Some_le_sum_list:
  "Some (c::nat) \<in> set cs \<Longrightarrow> c \<le> sum_list (map (case_option 0 id) cs)"
  by (induction cs) (auto split: option.splits)

termination color_loop
  by (relation "measure (\<lambda>(cs, c). Suc (sum_list (map (case_option 0 id) cs)) - c)")
     (auto dest: Some_le_sum_list)

declare color_loop.simps [simp del]

fun greedy_loop :: "graph \<Rightarrow> node list \<Rightarrow> coloring \<Rightarrow> error + coloring" where
  "greedy_loop G [] result = Inr result"
| "greedy_loop G (node # rest) result =
     (case neighbors G node of
        Inl e \<Rightarrow> Inl e
      | Inr ns \<Rightarrow>
          greedy_loop G rest
            (AList.update node (color_loop (map (map_of result) ns) 0) result))"

definition greedy_coloring :: "graph \<Rightarrow> error + coloring" where
  "greedy_coloring G = greedy_loop G (sort (nodes G)) []"

text \<open>
  The rule by which \<^verbatim>\<open>greedy_coloring\<close> picks a colour, as a property of a finished
  colouring: the colour of a node differs from the colours of its neighbours with smaller
  identity, and every smaller colour is taken by one of those neighbours.
\<close>

definition first_fit :: "graph \<Rightarrow> coloring \<Rightarrow> bool" where
  "first_fit G result \<longleftrightarrow>
     (\<forall>(v, c) \<in> set result.
        case map_of G v of
          None \<Rightarrow> False
        | Some ns \<Rightarrow>
            (\<forall>u \<in> set ns. u < v \<longrightarrow> map_of result u \<noteq> Some c) \<and>
            (\<forall>c' \<in> {..<c}. \<exists>u \<in> set ns. u < v \<and> map_of result u = Some c'))"

text \<open>The cycle on four nodes, used as a test graph.\<close>

definition cycle4 :: graph where
  "cycle4 = [(0, [1, 3]), (1, [0, 2]), (2, [1, 3]), (3, [2, 0])]"


section \<open>Traversals\<close>

subsection \<open>Breadth-first traversal\<close>

text \<open>
  The neighbour loop of \<^verbatim>\<open>bfs_with_depth\<close>: every neighbour not yet visited is
  marked visited and appended to the queue, one level deeper.
\<close>

fun bfs_expand :: "nat \<Rightarrow> node list \<Rightarrow> node set \<times> traversal \<Rightarrow> node set \<times> traversal" where
  "bfs_expand depth [] (visited, queue) = (visited, queue)"
| "bfs_expand depth (neighbor # rest) (visited, queue) =
     (if neighbor \<notin> visited then
        bfs_expand depth rest (insert neighbor visited, queue @ [(neighbor, depth + 1)])
      else bfs_expand depth rest (visited, queue))"

text \<open>
  The nodes a graph mentions, as keys or as neighbours. The traversals only ever reach
  such nodes, which bounds their running time.
\<close>

definition mentioned :: "graph \<Rightarrow> node set" where
  "mentioned G = set (map fst G) \<union> \<Union>(set ` set (map snd G))"

lemma bfs_expand_new:
  "\<exists>new. bfs_expand depth ns (visited, queue) =
           (visited \<union> set new, queue @ map (\<lambda>n. (n, depth + 1)) new) \<and>
         distinct new \<and> set new = set ns - visited"
proof (induction ns arbitrary: visited queue)
  case Nil
  show ?case by (intro exI [of _ "[]"]) simp
next
  case (Cons n ns)
  show ?case
  proof (cases "n \<in> visited")
    case True
    from Cons.IH [of visited queue] obtain new where
      "bfs_expand depth ns (visited, queue) =
         (visited \<union> set new, queue @ map (\<lambda>n. (n, depth + 1)) new)"
      "distinct new" "set new = set ns - visited" by blast
    with True show ?thesis by (intro exI [of _ new]) auto
  next
    case False
    from Cons.IH [of "insert n visited" "queue @ [(n, depth + 1)]"] obtain new where
      new: "bfs_expand depth ns (insert n visited, queue @ [(n, depth + 1)]) =
         (insert n visited \<union> set new, (queue @ [(n, depth + 1)]) @ map (\<lambda>n. (n, depth + 1)) new)"
      "distinct new" "set new = set ns - insert n visited" by blast
    with False show ?thesis by (intro exI [of _ "n # new"]) auto
  qed
qed

lemma neighbors_mentioned:
  assumes "neighbors G v = Inr ns" shows "set ns \<subseteq> mentioned G" "v \<in> mentioned G"
proof -
  from assms have "map_of G v = Some ns"
    by (simp add: neighbors_def split: option.splits)
  then have m: "(v, ns) \<in> set G" by (rule map_of_SomeD)
  then have "ns \<in> set (map snd G)" by force
  then show "set ns \<subseteq> mentioned G" by (auto simp: mentioned_def)
  from m have "v \<in> set (map fst G)" by force
  then show "v \<in> mentioned G" by (simp add: mentioned_def)
qed

lemma finite_mentioned: "finite (mentioned G)"
  by (simp add: mentioned_def)

lemma bfs_expand_measure:
  assumes nb: "neighbors G node = Inr ns"
    and ex: "(visited', queue') = bfs_expand depth (sort ns) (visited, queue)"
  shows "card (mentioned G - visited') + length queue'
           < Suc (card (mentioned G - visited) + length queue)"
proof -
  from bfs_expand_new [of depth "sort ns" visited queue] ex obtain new where
    new: "visited' = visited \<union> set new" "queue' = queue @ map (\<lambda>n. (n, depth + 1)) new"
      "distinct new" "set new = set ns - visited"
    by auto
  have sub: "set new \<subseteq> mentioned G - visited"
    using neighbors_mentioned(1) [OF nb] new(4) by auto
  have "mentioned G - visited' = (mentioned G - visited) - set new"
    using new(1) by auto
  then have "card (mentioned G - visited') = card (mentioned G - visited) - card (set new)"
    using sub by (simp add: card_Diff_subset)
  moreover have "card (set new) \<le> card (mentioned G - visited)"
    using sub by (intro card_mono) (simp_all add: finite_mentioned)
  moreover have "card (set new) = length new" using new(3) by (rule distinct_card)
  ultimately show ?thesis using new(2) by simp
qed

text \<open>
  The \<^verbatim>\<open>while queue:\<close> loop. The queue is a list whose head is its left end; the
  dequeued entry is appended to \<^verbatim>\<open>order\<close> before the neighbours are asked for.
\<close>

function bfs_loop :: "graph \<Rightarrow> node set \<Rightarrow> traversal \<Rightarrow> traversal \<Rightarrow> error + traversal" where
  "bfs_loop G visited [] order = Inr order"
| "bfs_loop G visited ((node, depth) # queue) order =
     (case neighbors G node of
        Inl e \<Rightarrow> Inl e
      | Inr ns \<Rightarrow>
          (case bfs_expand depth (sort ns) (visited, queue) of
             (visited', queue') \<Rightarrow> bfs_loop G visited' queue' (order @ [(node, depth)])))"
  by pat_completeness auto

termination bfs_loop
  by (relation "measure (\<lambda>(G, visited, queue, order).
          card (mentioned G - visited) + length queue)")
     (auto dest: bfs_expand_measure)

definition bfs_with_depth :: "graph \<Rightarrow> node \<Rightarrow> error + traversal" where
  "bfs_with_depth G start = bfs_loop G {start} [(start, 0)] []"




subsection \<open>Depth-first traversal\<close>

text \<open>
  \<^verbatim>\<open>dfs_rec\<close> is the inner function of \<^verbatim>\<open>dfs_with_depth\<close>, with the two
  variables it shares with the enclosing call passed as state; \<^verbatim>\<open>dfs_for\<close> is its loop
  over the sorted neighbours.
\<close>

type_synonym dfs_state = "node set \<times> traversal"

function dfs_rec :: "graph \<Rightarrow> node \<Rightarrow> nat \<Rightarrow> dfs_state \<Rightarrow> error + dfs_state"
  and dfs_for :: "graph \<Rightarrow> node list \<Rightarrow> nat \<Rightarrow> dfs_state \<Rightarrow> error + dfs_state" where
  "dfs_rec G node depth (visited, order) =
     (case neighbors G node of
        Inl e \<Rightarrow> Inl e
      | Inr ns \<Rightarrow> dfs_for G (sort ns) depth (insert node visited, order @ [(node, depth)]))"
| "dfs_for G [] depth st = Inr st"
| "dfs_for G (neighbor # rest) depth (visited, order) =
     (if neighbor \<notin> visited then
        (case dfs_rec G neighbor (depth + 1) (visited, order) of
           Inl e \<Rightarrow> Inl e
         | Inr st' \<Rightarrow> dfs_for G rest depth st')
      else dfs_for G rest depth (visited, order))"
  by pat_completeness auto

lemma dfs_dom_mono:
  "dfs_rec_dfs_for_dom (Inl (G, node, depth, st)) \<Longrightarrow>
     dfs_rec G node depth st = Inr st' \<Longrightarrow> fst st \<subseteq> fst st'"
  "dfs_rec_dfs_for_dom (Inr (G, ns, depth, st)) \<Longrightarrow>
     dfs_for G ns depth st = Inr st'' \<Longrightarrow> fst st \<subseteq> fst st''"
proof (induct G node depth st and G ns depth st arbitrary: st' and st''
    rule: dfs_rec_dfs_for.pinduct)
  case (1 G node depth visited order)
  from "1.prems" "1.hyps"(1) obtain ns where
    ns: "neighbors G node = Inr ns"
      "dfs_for G (sort ns) depth (insert node visited, order @ [(node, depth)]) = Inr st'"
    by (auto simp: dfs_rec.psimps split: sum.splits)
  from "1.hyps"(2) [OF ns] show ?case by simp
next
  case (2 G depth st)
  then show ?case by (simp add: dfs_for.psimps)
next
  case (3 G neighbor rest depth visited order)
  show ?case
  proof (cases "neighbor \<in> visited")
    case True
    with "3.prems" "3.hyps"(1) have "dfs_for G rest depth (visited, order) = Inr st''"
      by (simp add: dfs_for.psimps)
    with "3.hyps"(4) True show ?thesis by simp
  next
    case False
    with "3.prems" "3.hyps"(1) obtain st1 where
      st1: "dfs_rec G neighbor (depth + 1) (visited, order) = Inr st1"
        "dfs_for G rest depth st1 = Inr st''"
      by (auto simp: dfs_for.psimps split: sum.splits)
    from "3.hyps"(2) [OF False st1(1)] have "visited \<subseteq> fst st1" by simp
    moreover from "3.hyps"(3) [OF False st1(1) st1(2)] have "fst st1 \<subseteq> fst st''" .
    ultimately show ?thesis by simp
  qed
qed

definition dfs_unvisited :: "graph \<Rightarrow> node set \<Rightarrow> nat" where
  "dfs_unvisited G visited = card (mentioned G - visited)"

lemma dfs_unvisited_mono: "visited \<subseteq> visited' \<Longrightarrow> dfs_unvisited G visited' \<le> dfs_unvisited G visited"
  unfolding dfs_unvisited_def by (intro card_mono) (auto simp: finite_mentioned)

lemma dfs_unvisited_insert:
  "v \<in> mentioned G \<Longrightarrow> v \<notin> visited \<Longrightarrow>
   dfs_unvisited G (insert v visited) < dfs_unvisited G visited"
  unfolding dfs_unvisited_def
  by (intro psubset_card_mono) (auto simp: finite_mentioned)

lemma map_of_mentioned: "map_of G v = Some ns \<Longrightarrow> v \<in> mentioned G"
  by (rule neighbors_mentioned(2) [of G v ns]) (simp add: neighbors_def)

termination dfs_rec
proof (relation "measures [
     (\<lambda>x. case x of
         Inl (G, node, depth, (visited, order)) \<Rightarrow>
           (case map_of G node of None \<Rightarrow> 0 | Some ns \<Rightarrow> dfs_unvisited G (insert node visited))
       | Inr (G, ns, depth, (visited, order)) \<Rightarrow> dfs_unvisited G visited),
     (\<lambda>x. case x of Inl (G, node, depth, st) \<Rightarrow> (case map_of G node of None \<Rightarrow> 0 | Some ns \<Rightarrow> 1)
                   | Inr _ \<Rightarrow> 0),
     (\<lambda>x. case x of Inl _ \<Rightarrow> 0 | Inr (G, ns, depth, st) \<Rightarrow> length ns)]", goal_cases)
  case 1
  show ?case by simp
next
  case (2 G node depth visited order b)
  then show ?case by (auto simp: neighbors_def split: option.splits)
next
  case (3 G neighbor rest depth visited order)
  then show ?case
    by (auto split: option.splits dest!: map_of_mentioned simp: dfs_unvisited_insert)
next
  case (4 G neighbor rest depth visited order b)
  from dfs_dom_mono(1) [OF 4(3) 4(2)] have "visited \<subseteq> fst b" by simp
  from dfs_unvisited_mono [OF this, of G] show ?case
    by (cases b) auto
next
  case (5 G neighbor rest depth visited order)
  then show ?case by simp
qed

definition dfs_with_depth :: "graph \<Rightarrow> node \<Rightarrow> error + traversal" where
  "dfs_with_depth G start =
     (case dfs_rec G start 0 ({}, []) of Inl e \<Rightarrow> Inl e | Inr (visited, order) \<Rightarrow> Inr order)"



subsection \<open>Cycle detection\<close>

text \<open>
  \<^verbatim>\<open>dfs_cycle\<close> with its loop over \<^verbatim>\<open>G.neighbors(v)\<close>, in the graph's own order.
  The state is the pair of \<^verbatim>\<open>visited\<close> and \<^verbatim>\<open>rec_stack\<close>. Returning \<open>True\<close>
  leaves the loop at once; \<^verbatim>\<open>rec_stack.remove(v)\<close> raises \<^verbatim>\<open>KeyError\<close> when \<open>v\<close>
  is not in the set.
\<close>

type_synonym cycle_state = "node set \<times> node set"

function dfs_cycle :: "graph \<Rightarrow> node \<Rightarrow> node option \<Rightarrow> cycle_state \<Rightarrow> error + bool \<times> cycle_state"
  and dfs_cycle_for ::
    "graph \<Rightarrow> node list \<Rightarrow> node \<Rightarrow> node option \<Rightarrow> cycle_state \<Rightarrow> error + bool \<times> cycle_state"
  where
  "dfs_cycle G v parent (visited, rec_stack) =
     (case neighbors G v of
        Inl e \<Rightarrow> Inl e
      | Inr ns \<Rightarrow>
          (case dfs_cycle_for G ns v parent (insert v visited, insert v rec_stack) of
             Inl e \<Rightarrow> Inl e
           | Inr (found, (visited', rec_stack')) \<Rightarrow>
               if found then Inr (True, (visited', rec_stack'))
               else if v \<in> rec_stack' then Inr (False, (visited', rec_stack' - {v}))
               else Inl KeyError))"
| "dfs_cycle_for G [] v parent st = Inr (False, st)"
| "dfs_cycle_for G (neighbor # rest) v parent (visited, rec_stack) =
     (if neighbor \<notin> visited then
        (case dfs_cycle G neighbor (Some v) (visited, rec_stack) of
           Inl e \<Rightarrow> Inl e
         | Inr (found, st') \<Rightarrow>
             if found then Inr (True, st') else dfs_cycle_for G rest v parent st')
      else if neighbor \<in> rec_stack \<and> Some neighbor \<noteq> parent then
        Inr (True, (visited, rec_stack))
      else dfs_cycle_for G rest v parent (visited, rec_stack))"
  by pat_completeness auto

lemma dfs_cycle_dom_mono:
  "dfs_cycle_dfs_cycle_for_dom (Inl (G, v, parent, st)) \<Longrightarrow>
     dfs_cycle G v parent st = Inr (found, st') \<Longrightarrow> fst st \<subseteq> fst st'"
  "dfs_cycle_dfs_cycle_for_dom (Inr (G, ns, v, parent, st)) \<Longrightarrow>
     dfs_cycle_for G ns v parent st = Inr (found', st'') \<Longrightarrow> fst st \<subseteq> fst st''"
proof (induct G v parent st and G ns v parent st arbitrary: found st' and found' st''
    rule: dfs_cycle_dfs_cycle_for.pinduct)
  case (1 G v parent visited rec_stack)
  from "1.prems" "1.hyps"(1) obtain ns f vis rs where
    ns: "neighbors G v = Inr ns"
      "dfs_cycle_for G ns v parent (insert v visited, insert v rec_stack) = Inr (f, (vis, rs))"
      and st': "fst st' = vis"
    by (auto simp: dfs_cycle.psimps split: sum.splits if_splits)
  from "1.hyps"(2) [OF ns] st' show ?case by simp
next
  case (2 G v parent st)
  then show ?case by (simp add: dfs_cycle_for.psimps)
next
  case (3 G neighbor rest v parent visited rec_stack)
  show ?case
  proof (cases "neighbor \<in> visited")
    case True
    show ?thesis
    proof (cases "neighbor \<in> rec_stack \<and> Some neighbor \<noteq> parent")
      case onstack: True
      with True "3.prems" "3.hyps"(1) show ?thesis by (simp add: dfs_cycle_for.psimps)
    next
      case False
      with True "3.prems" "3.hyps"(1) have
        "dfs_cycle_for G rest v parent (visited, rec_stack) = Inr (found', st'')"
        by (simp add: dfs_cycle_for.psimps)
      from "3.hyps"(4) [OF _ False this] True show ?thesis by simp
    qed
  next
    case False
    with "3.prems" "3.hyps"(1) obtain f st1 where
      st1: "dfs_cycle G neighbor (Some v) (visited, rec_stack) = Inr (f, st1)"
        and rest: "if f then st'' = st1 else dfs_cycle_for G rest v parent st1 = Inr (found', st'')"
      by (auto simp: dfs_cycle_for.psimps split: sum.splits if_splits)
    from "3.hyps"(2) [OF False st1] have a: "visited \<subseteq> fst st1" by simp
    show ?thesis
    proof (cases f)
      case True
      with rest a show ?thesis by simp
    next
      case f: False
      with rest have r: "dfs_cycle_for G rest v parent st1 = Inr (found', st'')" by simp
      from "3.hyps"(3) [OF False st1 _ _ r] f have "fst st1 \<subseteq> fst st''" by simp
      with a show ?thesis by simp
    qed
  qed
qed

termination dfs_cycle
proof (relation "measures [
     (\<lambda>x. case x of
         Inl (G, v, parent, (visited, rec_stack)) \<Rightarrow>
           (case map_of G v of None \<Rightarrow> 0 | Some ns \<Rightarrow> dfs_unvisited G (insert v visited))
       | Inr (G, ns, v, parent, (visited, rec_stack)) \<Rightarrow> dfs_unvisited G visited),
     (\<lambda>x. case x of Inl (G, v, parent, st) \<Rightarrow> (case map_of G v of None \<Rightarrow> 0 | Some ns \<Rightarrow> 1)
                   | Inr _ \<Rightarrow> 0),
     (\<lambda>x. case x of Inl _ \<Rightarrow> 0 | Inr (G, ns, v, parent, st) \<Rightarrow> length ns)]", goal_cases)
  case 1
  show ?case by simp
next
  case (2 G v parent visited rec_stack b)
  then show ?case by (auto simp: neighbors_def split: option.splits)
next
  case (3 G neighbor rest v parent visited rec_stack)
  then show ?case
    by (auto split: option.splits dest!: map_of_mentioned simp: dfs_unvisited_insert)
next
  case (4 G neighbor rest v parent visited rec_stack b x y)
  from 4(2,3) have "dfs_cycle G neighbor (Some v) (visited, rec_stack) = Inr (x, y)" by simp
  from dfs_cycle_dom_mono(1) [OF 4(5) this] have "visited \<subseteq> fst y" by simp
  from dfs_unvisited_mono [OF this, of G] show ?case
    by (cases y) auto
next
  case (5 G neighbor rest v parent visited rec_stack)
  then show ?case by simp
qed

fun has_cycle_for :: "graph \<Rightarrow> node list \<Rightarrow> cycle_state \<Rightarrow> error + bool" where
  "has_cycle_for G [] st = Inr False"
| "has_cycle_for G (n # rest) (visited, rec_stack) =
     (if n \<notin> visited then
        (case dfs_cycle G n None (visited, rec_stack) of
           Inl e \<Rightarrow> Inl e
         | Inr (found, st') \<Rightarrow> if found then Inr True else has_cycle_for G rest st')
      else has_cycle_for G rest (visited, rec_stack))"

definition has_cycle :: "graph \<Rightarrow> error + bool" where
  "has_cycle G = has_cycle_for G (nodes G) ({}, {})"




section \<open>Walks, distances and cycles\<close>

text \<open>
  \<open>walk G s n v\<close>: node \<open>v\<close> is reached from \<open>s\<close> by following \<open>n\<close> edges. The
  shortest-path distance from \<open>s\<close> to \<open>v\<close> is the least such \<open>n\<close>, and \<open>v\<close> is reachable
  from \<open>s\<close> when there is one.
\<close>

inductive walk :: "graph \<Rightarrow> node \<Rightarrow> nat \<Rightarrow> node \<Rightarrow> bool" for G :: graph and s :: node where
  walk_start: "walk G s 0 s"
| walk_edge: "walk G s n u \<Longrightarrow> adjacent G u v \<Longrightarrow> walk G s (Suc n) v"






text \<open>
  A simple cycle: at least three distinct nodes, each adjacent to the next and the last
  adjacent to the first.
\<close>

definition is_cycle :: "graph \<Rightarrow> node list \<Rightarrow> bool" where
  "is_cycle G c \<longleftrightarrow>
     3 \<le> length c \<and> distinct c \<and> successively (adjacent G) c \<and> adjacent G (last c) (hd c)"

text \<open>
  Bookkeeping for \<^verbatim>\<open>has_cycle\<close>. The nodes that are visited and no longer on the
  recursion stack are finished. Listed in the order in which they finished, every one of
  them has at most one neighbour that was not finished before it (its parent in the
  search).
\<close>

definition elim_order :: "graph \<Rightarrow> node list \<Rightarrow> bool" where
  "elim_order G fs \<longleftrightarrow>
     (\<forall>i < length fs. \<exists>p. \<forall>n. adjacent G (fs ! i) n \<longrightarrow> n \<in> set (take i fs) \<or> n = p)"

definition finished :: "graph \<Rightarrow> node set \<Rightarrow> node set \<Rightarrow> node list \<Rightarrow> bool" where
  "finished G visited rec_stack fs \<longleftrightarrow>
     set fs = visited - rec_stack \<and> distinct fs \<and> rec_stack \<subseteq> visited \<and> elim_order G fs"

text \<open>
  The nodes on the recursion stack, from the root of the search down: \<open>p\<close> lists them,
  each adjacent to the next, ending in the node being explored, whose parent is the node
  before it.
\<close>

definition stack_path :: "graph \<Rightarrow> node set \<Rightarrow> node option \<Rightarrow> node \<Rightarrow> node list \<Rightarrow> bool" where
  "stack_path G rec_stack parent v p \<longleftrightarrow>
     distinct p \<and> set p = rec_stack \<and> successively (adjacent G) p \<and>
     p \<noteq> [] \<and> last p = v \<and>
     (case parent of None \<Rightarrow> p = [v] | Some u \<Rightarrow> \<exists>q. p = q @ [u, v])"

section \<open>Maximum clique\<close>

text \<open>
  \<^verbatim>\<open>max(cliques, key=len)\<close>: the first list of greatest length, and \<^verbatim>\<open>ValueError\<close>
  on an empty sequence.
\<close>

fun max_len_from :: "'a list \<Rightarrow> 'a list list \<Rightarrow> 'a list" where
  "max_len_from best [] = best"
| "max_len_from best (c # cs) =
     (if length best < length c then max_len_from c cs else max_len_from best cs)"

definition max_by_len :: "'a list list \<Rightarrow> error + 'a list" where
  "max_by_len cs = (case cs of [] \<Rightarrow> Inl ValueError | c # rest \<Rightarrow> Inr (max_len_from c rest))"

text \<open>
  \<^verbatim>\<open>nx.find_cliques\<close> is a function of the networkx library; it is a parameter of
  \<^verbatim>\<open>find_max_clique\<close> here.
\<close>

definition find_max_clique :: "(graph \<Rightarrow> node list list) \<Rightarrow> graph \<Rightarrow> error + node list" where
  "find_max_clique find_cliques G = max_by_len (find_cliques G)"

definition is_clique :: "graph \<Rightarrow> node set \<Rightarrow> bool" where
  "is_clique G S \<longleftrightarrow> S \<subseteq> set (nodes G) \<and> (\<forall>u \<in> S. \<forall>v \<in> S. u \<noteq> v \<longrightarrow> adjacent G u v)"

definition maximal_clique :: "graph \<Rightarrow> node set \<Rightarrow> bool" where
  "maximal_clique G S \<longleftrightarrow>
     is_clique G S \<and> (\<forall>v \<in> set (nodes G) - S. \<not> (\<forall>u \<in> S. adjacent G v u))"

text \<open>
  What the library promises of \<^verbatim>\<open>nx.find_cliques(G)\<close>: it yields every maximal clique of
  the graph, each as a list of its nodes without repetition, and nothing else. A clique it
  yields has at least one node, so for a graph without nodes it yields nothing.
\<close>

definition find_cliques_contract :: "graph \<Rightarrow> node list list \<Rightarrow> bool" where
  "find_cliques_contract G cliques \<longleftrightarrow>
     (\<forall>c \<in> set cliques. distinct c \<and> c \<noteq> [] \<and> maximal_clique G (set c)) \<and>
     (\<forall>S. S \<noteq> {} \<and> maximal_clique G S \<longrightarrow> S \<in> set ` set cliques)"



text \<open>On the graph without nodes the library finds no clique.\<close>

definition no_cliques :: "graph \<Rightarrow> node list list" where
  "no_cliques G = []"

section \<open>The application: render state and animation\<close>

text \<open>
  Colours are the colour names and hexadecimal codes that matplotlib takes, as strings.
  The two colour tables \<^verbatim>\<open>TABLEAU_COLORS\<close> and \<^verbatim>\<open>CSS4_COLORS\<close> belong to
  matplotlib; only their values, in order, are used, and they are a parameter here.
\<close>

type_synonym color = string

record palette =
  TABLEAU_COLORS :: "color list"
  CSS4_COLORS :: "color list"

definition get_color_map :: "palette \<Rightarrow> nat \<Rightarrow> error + color list" where
  "get_color_map pal num_colors =
     (let base_colors = TABLEAU_COLORS pal in
      if num_colors \<le> length base_colors then Inr (take num_colors base_colors)
      else
        let extended = base_colors @ CSS4_COLORS pal in
        if extended = [] then Inl ZeroDivisionError
        else Inr (map (\<lambda>i. extended ! (i mod length extended)) [0..<num_colors]))"

text \<open>
  The highlight argument of \<^verbatim>\<open>draw_graph\<close> is a dictionary from a colour name to the
  nodes to paint in that colour, or \<open>None\<close>.
\<close>

type_synonym highlight = "(string \<times> node list) list"

text \<open>
  The fields of \<^verbatim>\<open>GraphApp\<close> that the drawing and the actions read or write. The
  condition \<^verbatim>\<open>self.anim_thread and self.anim_thread.is_alive()\<close> is the field
  \<open>anim_thread_alive\<close>: starting the worker thread sets it, and only the thread's own end,
  which no method of the class controls, clears it. \<open>anim\<close> is the animation that was
  last created, \<open>log_text\<close> the lines of the log widget, and \<open>canvas\<close> the sequence of
  pictures handed to the renderer, each a colour per node and a title.
\<close>

record app =
  app_G :: graph
  app_palette :: palette
  node_colors :: "color list"
  current_coloring :: "coloring option"
  clique_nodes :: "node list option"
  anim_thread_alive :: bool
  anim :: "(traversal \<times> string) option"
  log_text :: "string list"
  canvas :: "(color list \<times> string) list"

definition log_msg :: "app \<Rightarrow> string \<Rightarrow> app" where
  "log_msg a msg = a\<lparr>log_text := log_text a @ [msg]\<rparr>"

text \<open>\<^verbatim>\<open>for n in ns: node_colors[n] = c\<close>; an index past the end raises \<^verbatim>\<open>IndexError\<close>.\<close>

fun paint :: "node list \<Rightarrow> color \<Rightarrow> color list \<Rightarrow> error + color list" where
  "paint [] c cols = Inr cols"
| "paint (n # ns) c cols =
     (if n < length cols then paint ns c (cols[n := c]) else Inl IndexError)"

text \<open>\<^verbatim>\<open>for node, color_idx in items: node_colors[node] = color_map[color_idx]\<close>.\<close>

fun paint_coloring :: "coloring \<Rightarrow> color list \<Rightarrow> color list \<Rightarrow> error + color list" where
  "paint_coloring [] color_map cols = Inr cols"
| "paint_coloring ((node, color_idx) # items) color_map cols =
     (if color_idx < length color_map then
        if node < length cols then
          paint_coloring items color_map (cols[node := color_map ! color_idx])
        else Inl IndexError
      else Inl IndexError)"

definition dict_get :: "highlight \<Rightarrow> string \<Rightarrow> node list" where
  "dict_get d k = (case map_of d k of None \<Rightarrow> [] | Some ns \<Rightarrow> ns)"

text \<open>
  The colours \<^verbatim>\<open>draw_graph\<close> computes, layer by layer. An empty dictionary or list
  is false in a condition, as \<open>None\<close> is.
\<close>

definition coloring_layer :: "app \<Rightarrow> color list \<Rightarrow> error + color list" where
  "coloring_layer a cols =
     (case current_coloring a of
        None \<Rightarrow> Inr cols
      | Some cl \<Rightarrow>
          if cl = [] then Inr cols
          else
            let max_color = fold max (map snd cl) 0 in
            case get_color_map (app_palette a) (max_color + 1) of
              Inl e \<Rightarrow> Inl e
            | Inr color_map \<Rightarrow> paint_coloring cl color_map cols)"

definition clique_layer :: "app \<Rightarrow> color list \<Rightarrow> error + color list" where
  "clique_layer a cols =
     (case clique_nodes a of
        None \<Rightarrow> Inr cols
      | Some ns \<Rightarrow> paint ns ''red'' cols)"

definition highlight_layer :: "highlight option \<Rightarrow> color list \<Rightarrow> error + color list" where
  "highlight_layer highlight_nodes cols =
     (case highlight_nodes of
        None \<Rightarrow> Inr cols
      | Some h \<Rightarrow>
          if h = [] then Inr cols
          else
            case paint (dict_get h ''gold'') ''gold'' cols of
              Inl e \<Rightarrow> Inl e
            | Inr cols' \<Rightarrow> paint (dict_get h ''lightgreen'') ''lightgreen'' cols')"

definition compose_colors :: "app \<Rightarrow> highlight option \<Rightarrow> error + color list" where
  "compose_colors a highlight_nodes =
     (case coloring_layer a (node_colors a) of
        Inl e \<Rightarrow> Inl e
      | Inr c1 \<Rightarrow>
          (case clique_layer a c1 of
             Inl e \<Rightarrow> Inl e
           | Inr c2 \<Rightarrow> highlight_layer highlight_nodes c2))"

definition draw_graph :: "app \<Rightarrow> highlight option \<Rightarrow> string \<Rightarrow> error + app" where
  "draw_graph a highlight_nodes title =
     (case compose_colors a highlight_nodes of
        Inl e \<Rightarrow> Inl e
      | Inr cols \<Rightarrow> Inr (a\<lparr>canvas := canvas a @ [(cols, title)]\<rparr>))"

text \<open>
  The layering as the specification words it: the base colour, overridden by the colour
  derived from the colouring, overridden by the clique colour, overridden by the step
  highlights (of which ``already visited'' is painted after ``current'').
\<close>

definition coloring_color :: "app \<Rightarrow> nat \<Rightarrow> color" where
  "coloring_color a color_idx =
     (case current_coloring a of
        None \<Rightarrow> []
      | Some cl \<Rightarrow>
          (case get_color_map (app_palette a) (fold max (map snd cl) 0 + 1) of
             Inl e \<Rightarrow> []
           | Inr color_map \<Rightarrow> color_map ! color_idx))"

definition highlight_of :: "highlight option \<Rightarrow> string \<Rightarrow> node list" where
  "highlight_of highlight_nodes k =
     (case highlight_nodes of None \<Rightarrow> [] | Some h \<Rightarrow> dict_get h k)"

definition layered_color :: "app \<Rightarrow> highlight option \<Rightarrow> node \<Rightarrow> color" where
  "layered_color a highlight_nodes n =
     (if n \<in> set (highlight_of highlight_nodes ''lightgreen'') then ''lightgreen''
      else if n \<in> set (highlight_of highlight_nodes ''gold'') then ''gold''
      else if n \<in> set (case clique_nodes a of None \<Rightarrow> [] | Some ns \<Rightarrow> ns) then ''red''
      else
        case map_of (case current_coloring a of None \<Rightarrow> [] | Some cl \<Rightarrow> cl) n of
          Some color_idx \<Rightarrow> coloring_color a color_idx
        | None \<Rightarrow> node_colors a ! n)"

text \<open>
  What a draw request needs in order not to raise: every node to be painted is an index of
  \<open>node_colors\<close>, the colouring is a dictionary (its keys are distinct), and the palette
  is not empty.
\<close>

definition drawable :: "app \<Rightarrow> highlight option \<Rightarrow> bool" where
  "drawable a highlight_nodes \<longleftrightarrow>
     TABLEAU_COLORS (app_palette a) \<noteq> [] \<and>
     (case current_coloring a of
        None \<Rightarrow> True
      | Some cl \<Rightarrow> distinct (map fst cl) \<and> (\<forall>n \<in> set (map fst cl). n < length (node_colors a))) \<and>
     (case clique_nodes a of
        None \<Rightarrow> True
      | Some ns \<Rightarrow> \<forall>n \<in> set ns. n < length (node_colors a)) \<and>
     (\<forall>n \<in> set (highlight_of highlight_nodes ''gold''). n < length (node_colors a)) \<and>
     (\<forall>n \<in> set (highlight_of highlight_nodes ''lightgreen''). n < length (node_colors a))"

text \<open>A small application state for testing: four nodes, the ten Tableau colours.\<close>

definition tableau10 :: palette where
  "tableau10 = \<lparr>TABLEAU_COLORS =
       [''#1f77b4'', ''#ff7f0e'', ''#2ca02c'', ''#d62728'', ''#9467bd'',
        ''#8c564b'', ''#e377c2'', ''#7f7f7f'', ''#bcbd22'', ''#17becf''],
     CSS4_COLORS = []\<rparr>"

definition app4 :: app where
  "app4 = \<lparr>app_G = cycle4, app_palette = tableau10,
     node_colors = replicate 4 ''lightblue'',
     current_coloring = Some [(0, 0), (1, 1), (2, 0), (3, 1)],
     clique_nodes = Some [1, 2],
     anim_thread_alive = False, anim = None, log_text = [], canvas = []\<rparr>"

definition highlight4 :: "highlight option" where
  "highlight4 = Some [(''gold'', [2, 3]), (''lightgreen'', [3])]"

section \<open>Actions and animation\<close>

text \<open>Python's \<^verbatim>\<open>str\<close> of a non-negative integer and of a list of them.\<close>

function str_nat :: "nat \<Rightarrow> string" where
  "str_nat n =
     (if n < 10 then [char_of (48 + n)]
      else str_nat (n div 10) @ [char_of (48 + n mod 10)])"
  by pat_completeness auto

termination str_nat
  by (relation "measure id") auto

declare str_nat.simps [simp del]

fun join_comma :: "string list \<Rightarrow> string" where
  "join_comma [] = []"
| "join_comma [s] = s"
| "join_comma (s # t # rest) = s @ '', '' @ join_comma (t # rest)"

definition str_list :: "nat list \<Rightarrow> string" where
  "str_list ns = ''['' @ join_comma (map str_nat ns) @ '']''"

text \<open>
  \<^verbatim>\<open>animate_traversal\<close>. When the worker thread of an earlier animation is alive the call
  only writes to the log. Otherwise it resets the node colours and the clique highlight
  and starts a worker thread, which creates the animation of \<^verbatim>\<open>order\<close>.
\<close>

definition animate_traversal :: "app \<Rightarrow> traversal \<Rightarrow> string \<Rightarrow> app" where
  "animate_traversal a order mode =
     (if anim_thread_alive a then
        log_msg a ''Animation is already running. Wait until it finishes.''
      else
        a\<lparr>node_colors := replicate 34 ''lightblue'', clique_nodes := None,
          anim := Some (order, mode), anim_thread_alive := True\<rparr>)"

definition run_bfs :: "app \<Rightarrow> error + app" where
  "run_bfs a =
     (let a1 = a\<lparr>current_coloring := None, clique_nodes := None\<rparr> in
      case bfs_with_depth (app_G a1) 0 of
        Inl e \<Rightarrow> Inl e
      | Inr order \<Rightarrow>
          let a2 = log_msg a1 ''=== BFS ==='';
              nodes_only = map fst order;
              a3 = log_msg a2 (''BFS order: '' @ str_list nodes_only @ '' ('' @
                     str_nat (length nodes_only) @ '' nodes)'')
          in Inr (animate_traversal a3 order ''BFS''))"

definition run_dfs :: "app \<Rightarrow> error + app" where
  "run_dfs a =
     (let a1 = a\<lparr>current_coloring := None, clique_nodes := None\<rparr> in
      case dfs_with_depth (app_G a1) 0 of
        Inl e \<Rightarrow> Inl e
      | Inr order \<Rightarrow>
          let a2 = log_msg a1 ''=== DFS ==='';
              nodes_only = map fst order;
              a3 = log_msg a2 (''DFS order: '' @ str_list nodes_only @ '' ('' @
                     str_nat (length nodes_only) @ '' nodes)'')
          in Inr (animate_traversal a3 order ''DFS''))"

fun log_colors :: "app \<Rightarrow> coloring \<Rightarrow> node list \<Rightarrow> error + app" where
  "log_colors a cl [] = Inr a"
| "log_colors a cl (node # rest) =
     (case map_of cl node of
        None \<Rightarrow> Inl KeyError
      | Some c \<Rightarrow>
          log_colors (log_msg a (''Node '' @ str_nat node @ '': Color '' @ str_nat c)) cl rest)"

definition run_coloring :: "app \<Rightarrow> error + app" where
  "run_coloring a =
     (if anim_thread_alive a then
        Inr (log_msg a ''Wait for any running animation to finish before coloring.'')
      else
        case greedy_coloring (app_G a) of
          Inl e \<Rightarrow> Inl e
        | Inr cl \<Rightarrow>
            let a1 = a\<lparr>current_coloring := Some cl, clique_nodes := None\<rparr> in
            if cl = [] then Inl ValueError
            else
              let max_color = fold max (map snd cl) 0;
                  a2 = log_msg a1 ''=== Greedy Coloring ==='';
                  a3 = log_msg a2 (''Colors used: '' @ str_nat (max_color + 1))
              in case log_colors a3 cl (sort (map fst cl)) of
                   Inl e \<Rightarrow> Inl e
                 | Inr a4 \<Rightarrow>
                     draw_graph (a4\<lparr>node_colors := replicate 34 ''lightblue''\<rparr>) None
                       ''Greedy Coloring Result'')"

definition check_cycle :: "app \<Rightarrow> error + app" where
  "check_cycle a =
     (let a1 = a\<lparr>clique_nodes := None\<rparr> in
      case has_cycle (app_G a1) of
        Inl e \<Rightarrow> Inl e
      | Inr result \<Rightarrow>
          Inr (log_msg (log_msg a1 ''=== Cycle Check ==='')
                 (''Graph has cycle: '' @ (if result then ''True'' else ''False''))))"

definition check_clique :: "(graph \<Rightarrow> node list list) \<Rightarrow> app \<Rightarrow> error + app" where
  "check_clique find_cliques a =
     (let a1 = a\<lparr>current_coloring := None\<rparr> in
      case find_max_clique find_cliques (app_G a1) of
        Inl e \<Rightarrow> Inl e
      | Inr max_clique \<Rightarrow>
          let a2 = a1\<lparr>clique_nodes := Some max_clique\<rparr>;
              a3 = log_msg a2 ''=== Clique Check ==='';
              a4 = log_msg a3 (''Maximum clique size: '' @ str_nat (length max_clique));
              a5 = log_msg a4 (''Clique nodes: '' @ str_list max_clique)
          in draw_graph a5 None ''Maximum Clique Highlighted'')"

definition clear_log :: "app \<Rightarrow> error + app" where
  "clear_log a =
     draw_graph
       (a\<lparr>log_text := [], current_coloring := None,
          node_colors := replicate 34 ''lightblue'', clique_nodes := None\<rparr>)
       None ''''"

subsection \<open>The frames of an animation\<close>

text \<open>
  \<^verbatim>\<open>step\<close> is the dictionary the worker creates, with the two keys \<^verbatim>\<open>'gold'\<close>
  (the current node) and \<^verbatim>\<open>'lightgreen'\<close> (nodes already visited); the frame function
  \<^verbatim>\<open>update\<close> appends to its lists, so it is passed in and returned.
\<close>

definition step0 :: highlight where
  "step0 = [(''gold'', []), (''lightgreen'', [])]"

definition dict_append :: "highlight \<Rightarrow> string \<Rightarrow> node \<Rightarrow> error + highlight" where
  "dict_append d k n =
     (case map_of d k of
        None \<Rightarrow> Inl KeyError
      | Some ns \<Rightarrow> Inr (AList.update k (ns @ [n]) d))"

fun dict_append_all :: "highlight \<Rightarrow> string \<Rightarrow> node list \<Rightarrow> error + highlight" where
  "dict_append_all d k [] = Inr d"
| "dict_append_all d k (n # ns) =
     (case dict_append d k n of Inl e \<Rightarrow> Inl e | Inr d' \<Rightarrow> dict_append_all d' k ns)"

text \<open>The dash in the title is U+2013, three bytes in UTF-8.\<close>

definition en_dash :: string where
  "en_dash = [CHR 0xE2, CHR 0x80, CHR 0x93]"

definition step_title :: "string \<Rightarrow> nat \<Rightarrow> node \<Rightarrow> nat \<Rightarrow> string" where
  "step_title mode frame node depth =
     mode @ '' '' @ en_dash @ '' Step '' @ str_nat frame @ '': Node '' @ str_nat node @
     '' (Depth '' @ str_nat depth @ '')''"

text \<open>The first half of \<^verbatim>\<open>update\<close>: the new highlights and the title of the frame.\<close>

definition update_step ::
  "traversal \<Rightarrow> string \<Rightarrow> highlight \<Rightarrow> nat \<Rightarrow> error + highlight \<times> string" where
  "update_step order mode step frame =
     (if frame > 0 then
        if frame - 1 < length order then
          case order ! (frame - 1) of (node, depth) \<Rightarrow>
            (case dict_append step ''gold'' node of
               Inl e \<Rightarrow> Inl e
             | Inr step1 \<Rightarrow>
                 (case (if frame > 1 then
                          dict_append step1 ''lightgreen'' (fst (order ! (frame - 2)))
                        else Inr step1) of
                    Inl e \<Rightarrow> Inl e
                  | Inr step2 \<Rightarrow> Inr (step2, step_title mode frame node depth)))
        else Inl IndexError
      else Inr (step, mode))"

definition update ::
  "app \<Rightarrow> traversal \<Rightarrow> string \<Rightarrow> highlight \<Rightarrow> nat \<Rightarrow> error + app \<times> highlight" where
  "update a order mode step frame =
     (case update_step order mode step frame of
        Inl e \<Rightarrow> Inl e
      | Inr (step1, title) \<Rightarrow>
          (case draw_graph a (Some step1) title of
             Inl e \<Rightarrow> Inl e
           | Inr a1 \<Rightarrow>
               if frame = length order then
                 (case dict_append_all step1 ''lightgreen'' (map fst order) of
                    Inl e \<Rightarrow> Inl e
                  | Inr step2 \<Rightarrow>
                      (case draw_graph a1 (Some step2) (mode @ '' Completed'') of
                         Inl e \<Rightarrow> Inl e
                       | Inr a2 \<Rightarrow> Inr (a2, step2)))
               else Inr (a1, step1)))"

text \<open>
  The animation calls \<^verbatim>\<open>update\<close> with the frames \<open>0, 1, \<dots>, len(order)\<close> in turn
  (\<^verbatim>\<open>frames=len(order) + 1\<close>, \<^verbatim>\<open>repeat=False\<close>).
\<close>

fun play ::
  "app \<Rightarrow> traversal \<Rightarrow> string \<Rightarrow> highlight \<Rightarrow> nat list \<Rightarrow> error + app \<times> highlight" where
  "play a order mode step [] = Inr (a, step)"
| "play a order mode step (frame # frames) =
     (case update a order mode step frame of
        Inl e \<Rightarrow> Inl e
      | Inr (a', step') \<Rightarrow> play a' order mode step' frames)"

definition animation :: "app \<Rightarrow> traversal \<Rightarrow> string \<Rightarrow> error + app \<times> highlight" where
  "animation a order mode = play a order mode step0 [0..<length order + 1]"

subsection \<open>Test states\<close>

text \<open>
  A fresh application on the four-cycle, and the state it is in after \<^verbatim>\<open>Run BFS\<close>
  followed by \<^verbatim>\<open>Check Clique\<close> while the worker thread is alive (log and canvas left
  out). The maximal cliques of the four-cycle are its edges.
\<close>

definition cycle4_cliques :: "graph \<Rightarrow> node list list" where
  "cycle4_cliques G = [[0, 1], [1, 2], [2, 3], [3, 0]]"

definition idle4 :: app where
  "idle4 = \<lparr>app_G = cycle4, app_palette = tableau10,
     node_colors = replicate 34 ''lightblue'',
     current_coloring = None, clique_nodes = None,
     anim_thread_alive = False, anim = None, log_text = [], canvas = []\<rparr>"

definition busy4 :: app where
  "busy4 = \<lparr>app_G = cycle4, app_palette = tableau10,
     node_colors = replicate 34 ''lightblue'',
     current_coloring = None, clique_nodes = Some [0, 1],
     anim_thread_alive = True, anim = Some ([(0, 0), (1, 1), (3, 1), (2, 2)], ''BFS''),
     log_text = [], canvas = []\<rparr>"


subsection \<open>The pictures of an animation\<close>

text \<open>
  The colours of a whole picture by the layering rule, the highlights in force at frame
  \<open>i\<close> (the first \<open>i\<close> traversal nodes as current, the first \<open>i - 1\<close> as visited),
  and the highlights of the closing picture.
\<close>

definition layered_colors :: "app \<Rightarrow> highlight option \<Rightarrow> color list" where
  "layered_colors a highlight_nodes =
     map (layered_color a highlight_nodes) [0..<length (node_colors a)]"









section \<open>Properties of the greedy colouring\<close>

lemma color_loop_ge: "k \<le> color_loop cs k"
proof (induction cs k rule: color_loop.induct)
  case (1 cs k)
  show ?case
  proof (cases "Some k \<in> set cs")
    case True
    with 1 have "k + 1 \<le> color_loop cs (k + 1)" by simp
    with True show ?thesis by (subst color_loop.simps) simp
  next
    case False
    then show ?thesis by (subst color_loop.simps) simp
  qed
qed

lemma color_loop_free: "Some (color_loop cs k) \<notin> set cs"
proof (induction cs k rule: color_loop.induct)
  case (1 cs k)
  show ?case
  proof (cases "Some k \<in> set cs")
    case True
    with 1 show ?thesis by (subst color_loop.simps) simp
  next
    case False
    then show ?thesis by (subst color_loop.simps) simp
  qed
qed

lemma color_loop_below: "k \<le> c \<Longrightarrow> c < color_loop cs k \<Longrightarrow> Some c \<in> set cs"
proof (induction cs k rule: color_loop.induct)
  case (1 cs k)
  show ?case
  proof (cases "Some k \<in> set cs")
    case True
    have eq: "color_loop cs k = color_loop cs (k + 1)"
      using True by (subst color_loop.simps) simp
    show ?thesis
    proof (cases "c = k")
      case True
      with \<open>Some k \<in> set cs\<close> show ?thesis by simp
    next
      case False
      with "1.prems" have "k + 1 \<le> c" by simp
      with "1.IH" [OF True] "1.prems" eq show ?thesis by simp
    qed
  next
    case False
    then have "color_loop cs k = k" by (subst color_loop.simps) simp
    with "1.prems" show ?thesis by simp
  qed
qed

lemma neighbors_node:
  "v \<in> set (nodes G) \<Longrightarrow> \<exists>ns. neighbors G v = Inr ns \<and> map_of G v = Some ns"
  by (cases "map_of G v") (auto simp: neighbors_def nodes_def map_of_eq_None_iff)

lemma simple_graph_neighbor:
  assumes "simple_graph G" "map_of G v = Some ns" "u \<in> set ns"
  shows "u \<noteq> v" "adjacent G u v" "u \<in> set (nodes G)"
proof -
  from assms(2) have "(v, ns) \<in> set G" by (rule map_of_SomeD)
  with assms(1,3) have a: "v \<notin> set ns" and
    b: "case map_of G u of None \<Rightarrow> False | Some ms \<Rightarrow> v \<in> set ms"
    unfolding simple_graph_def by fastforce+
  from a assms(3) show "u \<noteq> v" by auto
  from b show "adjacent G u v" by (simp add: adjacent_def)
  from b show "u \<in> set (nodes G)"
    by (cases "map_of G u") (auto simp: nodes_def dest: map_of_SomeD intro: rev_image_eqI)
qed

lemma first_fit_map_of:
  assumes "distinct (map fst result)"
  shows "first_fit G result \<longleftrightarrow>
    (\<forall>v c. map_of result v = Some c \<longrightarrow>
       (\<exists>ns. map_of G v = Some ns \<and>
         (\<forall>u \<in> set ns. u < v \<longrightarrow> map_of result u \<noteq> Some c) \<and>
         (\<forall>c' < c. \<exists>u \<in> set ns. u < v \<and> map_of result u = Some c')))"
proof -
  have eq: "\<And>v c. (map_of result v = Some c) = ((v, c) \<in> set result)"
    using assms by simp
  have opt: "\<And>x P. (case x of None \<Rightarrow> False | Some ns \<Rightarrow> P ns) = (\<exists>ns. x = Some ns \<and> P ns)"
    by (simp split: option.split)
  have "first_fit G result \<longleftrightarrow>
    (\<forall>v c. (v, c) \<in> set result \<longrightarrow>
       (\<exists>ns. map_of G v = Some ns \<and>
         (\<forall>u \<in> set ns. u < v \<longrightarrow> (u, c) \<notin> set result) \<and>
         (\<forall>c' < c. \<exists>u \<in> set ns. u < v \<and> (u, c') \<in> set result)))"
    unfolding first_fit_def eq opt by (simp add: Ball_def)
  then show ?thesis unfolding eq .
qed

lemma greedy_loop_inv:
  assumes sg: "simple_graph G"
  shows "sorted (ps @ rest) \<Longrightarrow> distinct (ps @ rest) \<Longrightarrow> set rest \<subseteq> set (nodes G) \<Longrightarrow>
    map fst result = ps \<Longrightarrow> first_fit G result \<Longrightarrow>
    \<exists>r. greedy_loop G rest result = Inr r \<and> map fst r = ps @ rest \<and> first_fit G r"
proof (induction rest arbitrary: ps result)
  case Nil
  then show ?case by simp
next
  case (Cons w rest)
  from Cons.prems(3) obtain ns where ns: "neighbors G w = Inr ns" "map_of G w = Some ns"
    using neighbors_node [of w G] by auto
  define c where "c = color_loop (map (map_of result) ns) 0"
  define r1 where "r1 = AList.update w c result"
  have below: "\<forall>p \<in> set ps. p < w"
    using Cons.prems(1,2) by (auto simp: sorted_append order_less_le)
  have wps: "w \<notin> set ps" using Cons.prems(2) by simp
  have keys: "map fst r1 = ps @ [w]"
    using wps Cons.prems(4) by (simp add: r1_def update_keys)
  have dps: "distinct ps" using Cons.prems(2) by simp
  have dr: "distinct (map fst result)" using dps Cons.prems(4) by simp
  have dr1: "distinct (map fst r1)" using keys dps wps by simp
  have dom: "\<And>u x. map_of result u = Some x \<Longrightarrow> u \<in> set ps"
  proof -
    fix u x assume "map_of result u = Some x"
    then have "(u, x) \<in> set result" by (rule map_of_SomeD)
    then have "u \<in> set (map fst result)" by force
    then show "u \<in> set ps" by (simp only: Cons.prems(4))
  qed
  have r1_eq: "\<And>u. u \<noteq> w \<Longrightarrow> map_of r1 u = map_of result u"
    by (simp add: r1_def update_conv')
  have r1_w: "map_of r1 w = Some c" by (simp add: r1_def update_conv')
  have old: "first_fit G result" by fact
  have "first_fit G r1"
    unfolding first_fit_map_of [OF dr1]
  proof (intro allI impI)
    fix v k assume vk: "map_of r1 v = Some k"
    show "\<exists>ns. map_of G v = Some ns \<and>
         (\<forall>u \<in> set ns. u < v \<longrightarrow> map_of r1 u \<noteq> Some k) \<and>
         (\<forall>c' < k. \<exists>u \<in> set ns. u < v \<and> map_of r1 u = Some c')"
    proof (cases "v = w")
      case True
      with vk r1_w have kc: "k = c" by simp
      have free: "\<forall>u \<in> set ns. map_of result u \<noteq> Some c"
        using color_loop_free [of "map (map_of result) ns" 0] unfolding c_def [symmetric]
        by (auto simp: image_iff)
      have nw: "\<forall>u \<in> set ns. u \<noteq> w"
        using simple_graph_neighbor(1) [OF sg ns(2)] by blast
      have a: "\<forall>u \<in> set ns. u < w \<longrightarrow> map_of r1 u \<noteq> Some c"
        using free nw r1_eq by simp
      have b: "\<forall>c' < c. \<exists>u \<in> set ns. u < w \<and> map_of r1 u = Some c'"
      proof (intro allI impI)
        fix c' assume "c' < c"
        then have "Some c' \<in> set (map (map_of result) ns)"
          unfolding c_def by (intro color_loop_below [of 0]) simp_all
        then obtain u where u: "u \<in> set ns" "map_of result u = Some c'" by auto
        from u(2) have "u \<in> set ps" by (rule dom)
        with below have "u < w" by simp
        with u r1_eq [of u] show "\<exists>u \<in> set ns. u < w \<and> map_of r1 u = Some c'" by auto
      qed
      from a b ns(2) True kc show ?thesis by simp
    next
      case False
      with vk r1_eq have vk': "map_of result v = Some k" by simp
      then have "v \<in> set ps" by (rule dom)
      with below have vw: "v < w" by simp
      from old vk' obtain ms where ms: "map_of G v = Some ms"
        "\<forall>u \<in> set ms. u < v \<longrightarrow> map_of result u \<noteq> Some k"
        "\<forall>c' < k. \<exists>u \<in> set ms. u < v \<and> map_of result u = Some c'"
        unfolding first_fit_map_of [OF dr] by blast
      have same: "\<And>u. u < v \<Longrightarrow> map_of r1 u = map_of result u"
        using vw r1_eq by simp
      have a: "\<forall>u \<in> set ms. u < v \<longrightarrow> map_of r1 u \<noteq> Some k"
        using ms(2) same by simp
      have b: "\<forall>c' < k. \<exists>u \<in> set ms. u < v \<and> map_of r1 u = Some c'"
      proof (intro allI impI)
        fix c' assume "c' < k"
        with ms(3) obtain u where "u \<in> set ms" "u < v" "map_of result u = Some c'" by blast
        with same [of u] show "\<exists>u \<in> set ms. u < v \<and> map_of r1 u = Some c'" by auto
      qed
      from ms(1) a b show ?thesis by blast
    qed
  qed
  then have ff1: "first_fit G r1" .
  have s1: "sorted ((ps @ [w]) @ rest)" using Cons.prems(1) by simp
  have d1: "distinct ((ps @ [w]) @ rest)" using Cons.prems(2) by simp
  have n1: "set rest \<subseteq> set (nodes G)" using Cons.prems(3) by simp
  have "\<exists>r. greedy_loop G rest r1 = Inr r \<and> map fst r = (ps @ [w]) @ rest \<and> first_fit G r"
    using s1 d1 n1 keys ff1 by (rule Cons.IH)
  then obtain r where r: "greedy_loop G rest r1 = Inr r" "map fst r = ps @ w # rest"
    "first_fit G r"
    by auto
  have "greedy_loop G (w # rest) result = greedy_loop G rest r1"
    unfolding r1_def c_def using ns(1) by simp
  with r show ?case by simp
qed

lemma first_fit_Nil: "first_fit G []"
  by (simp add: first_fit_def)

lemma greedy_coloring_result:
  assumes sg: "simple_graph G"
  shows "\<exists>r. greedy_coloring G = Inr r \<and> map fst r = sort (nodes G) \<and> first_fit G r"
proof -
  have d: "distinct (nodes G)" using sg by (simp add: simple_graph_def nodes_def)
  have "\<exists>r. greedy_loop G (sort (nodes G)) [] = Inr r \<and> map fst r = [] @ sort (nodes G) \<and>
    first_fit G r"
    using sg
  proof (rule greedy_loop_inv)
    show "sorted ([] @ sort (nodes G))" by simp
    show "distinct ([] @ sort (nodes G))" using d by simp
    show "set (sort (nodes G)) \<subseteq> set (nodes G)" by simp
    show "map fst [] = []" by simp
    show "first_fit G []" by (rule first_fit_Nil)
  qed
  then show ?thesis by (simp add: greedy_coloring_def)
qed

lemma down_closed_lessThan:
  fixes S :: "nat set"
  assumes fin: "finite S" and down: "\<And>c c'. c \<in> S \<Longrightarrow> c' < c \<Longrightarrow> c' \<in> S"
  shows "S = {..<card S}"
proof -
  have "S \<subseteq> {..<card S}"
  proof
    fix c assume c: "c \<in> S"
    have "{..c} \<subseteq> S"
    proof
      fix c' assume "c' \<in> {..c}"
      then have "c' = c \<or> c' < c" by auto
      with c down show "c' \<in> S" by blast
    qed
    then have "card {..c} \<le> card S" using fin by (rule card_mono [rotated])
    then show "c \<in> {..<card S}" by simp
  qed
  moreover have "card {..<card S} = card S" by simp
  ultimately show ?thesis using card_subset_eq [of "{..<card S}" S] by simp
qed

lemma le_fold_max: "(a::nat) \<le> fold max xs a"
proof (induction xs arbitrary: a)
  case Nil show ?case by simp
next
  case (Cons x xs)
  have "a \<le> max x a" by simp
  also have "\<dots> \<le> fold max xs (max x a)" by (rule Cons.IH)
  finally show ?case by simp
qed

lemma mem_le_fold_max: "(x::nat) \<in> set xs \<Longrightarrow> x \<le> fold max xs a"
proof (induction xs arbitrary: a)
  case Nil then show ?case by simp
next
  case (Cons y xs)
  show ?case
  proof (cases "x = y")
    case True
    have "x \<le> max y a" using True by simp
    also have "\<dots> \<le> fold max xs (max y a)" by (rule le_fold_max)
    finally show ?thesis by simp
  next
    case False
    with Cons.prems have "x \<in> set xs" by simp
    then show ?thesis using Cons.IH by simp
  qed
qed


text \<open>
  Claim C2. On an undirected simple graph, \<^verbatim>\<open>greedy_coloring\<close> returns a colouring whose
  keys are the nodes in ascending order (the order of processing); every node has the
  smallest colour not among the colours of its neighbours processed before it; the two ends
  of every edge have different colours; and the colours used are exactly \<open>0..k-1\<close>.
\<close>

theorem greedy_coloring_first_fit:
  assumes sg: "simple_graph G"
  shows "\<exists>result. greedy_coloring G = Inr result \<and>
           map fst result = sort (nodes G) \<and>
           first_fit G result \<and>
           (\<forall>u v. adjacent G u v \<longrightarrow>
              (\<exists>cu cv. map_of result u = Some cu \<and> map_of result v = Some cv \<and> cu \<noteq> cv)) \<and>
           snd ` set result = {..<card (snd ` set result)}"
proof -
  from greedy_coloring_result [OF sg] obtain r where
    r: "greedy_coloring G = Inr r" "map fst r = sort (nodes G)" "first_fit G r" by blast
  have dG: "distinct (nodes G)" using sg by (simp add: simple_graph_def nodes_def)
  have dr: "distinct (map fst r)" using r(2) dG by simp
  note ff = r(3) [unfolded first_fit_map_of [OF dr]]
  have colored: "\<exists>c. map_of r v = Some c" if "v \<in> set (nodes G)" for v
  proof -
    from that r(2) have "v \<in> fst ` set r" by (metis set_map set_sort)
    then show ?thesis by (cases "map_of r v") (auto simp: map_of_eq_None_iff)
  qed
  have proper: "\<exists>cu cv. map_of r u = Some cu \<and> map_of r v = Some cv \<and> cu \<noteq> cv"
    if adj: "adjacent G u v" for u v
  proof -
    from adj obtain ns where ns: "map_of G u = Some ns" "v \<in> set ns"
      by (auto simp: adjacent_def split: option.splits)
    have vu: "v \<noteq> u" "adjacent G v u" "v \<in> set (nodes G)"
      using simple_graph_neighbor [OF sg ns] by auto
    from vu(2) obtain ms where ms: "map_of G v = Some ms" "u \<in> set ms"
      by (auto simp: adjacent_def split: option.splits)
    have "u \<in> set (nodes G)" using simple_graph_neighbor(3) [OF sg ms] .
    with colored obtain cu where cu: "map_of r u = Some cu" by blast
    from colored vu(3) obtain cv where cv: "map_of r v = Some cv" by blast
    have "cu \<noteq> cv"
    proof (cases "u < v")
      case True
      from ff cv ms(1) have "\<forall>w \<in> set ms. w < v \<longrightarrow> map_of r w \<noteq> Some cv" by fastforce
      with ms(2) True cu show ?thesis by auto
    next
      case False
      with vu(1) have "v < u" by simp
      from ff cu ns(1) have "\<forall>w \<in> set ns. w < u \<longrightarrow> map_of r w \<noteq> Some cu" by fastforce
      with ns(2) \<open>v < u\<close> cv show ?thesis by auto
    qed
    with cu cv show ?thesis by blast
  qed
  have "snd ` set r = {..<card (snd ` set r)}"
  proof (rule down_closed_lessThan)
    show "finite (snd ` set r)" by simp
  next
    fix c c' assume c: "c \<in> snd ` set r" and lt: "c' < c"
    from c obtain v where "(v, c) \<in> set r" by auto
    with dr have "map_of r v = Some c" by simp
    with ff lt obtain u where "map_of r u = Some c'" by blast
    then have "(u, c') \<in> set r" by (rule map_of_SomeD)
    then show "c' \<in> snd ` set r" by force
  qed
  with r proper show ?thesis by blast
qed

theorem greedy_coloring_first_fit_witness:
  "simple_graph cycle4 \<and>
   greedy_coloring cycle4 = Inr [(0, 0), (1, 1), (2, 0), (3, 1)] \<and>
   (\<exists>result. greedy_coloring cycle4 = Inr result \<and>
           map fst result = sort (nodes cycle4) \<and>
           first_fit cycle4 result \<and>
           (\<forall>u v. adjacent cycle4 u v \<longrightarrow>
              (\<exists>cu cv. map_of result u = Some cu \<and> map_of result v = Some cv \<and> cu \<noteq> cv)) \<and>
           snd ` set result = {..<card (snd ` set result)})"
proof -
  have sg: "simple_graph cycle4" by (simp add: simple_graph_def cycle4_def)
  have ev: "greedy_coloring cycle4 = Inr [(0, 0), (1, 1), (2, 0), (3, 1)]"
    by code_simp
  from sg ev greedy_coloring_first_fit [OF sg] show ?thesis by blast
qed



section \<open>Properties of the breadth-first traversal\<close>

















section \<open>Properties of the depth-first traversal\<close>











section \<open>Properties of the maximum clique\<close>












section \<open>Properties of the render state\<close>

lemma paint_result:
  "\<forall>n \<in> set ns. n < length cols \<Longrightarrow>
   \<exists>cols'. paint ns c cols = Inr cols' \<and> length cols' = length cols \<and>
     (\<forall>m < length cols. cols' ! m = (if m \<in> set ns then c else cols ! m))"
proof (induction ns arbitrary: cols)
  case Nil
  then show ?case by simp
next
  case (Cons n ns)
  have "\<forall>k \<in> set ns. k < length (cols[n := c])" using Cons.prems by simp
  from Cons.IH [OF this] obtain cols' where
    c': "paint ns c (cols[n := c]) = Inr cols'" "length cols' = length cols"
      "\<forall>m < length cols. cols' ! m = (if m \<in> set ns then c else cols[n := c] ! m)"
    by auto
  have "\<forall>m < length cols. cols' ! m = (if m \<in> set (n # ns) then c else cols ! m)"
    using c'(3) by (auto simp: nth_list_update)
  with c'(1,2) Cons.prems show ?case by simp
qed

lemma paint_coloring_result:
  "distinct (map fst items) \<Longrightarrow>
   \<forall>(n, i) \<in> set items. n < length cols \<and> i < length color_map \<Longrightarrow>
   \<exists>cols'. paint_coloring items color_map cols = Inr cols' \<and> length cols' = length cols \<and>
     (\<forall>m < length cols. cols' ! m =
        (case map_of items m of None \<Rightarrow> cols ! m | Some i \<Rightarrow> color_map ! i))"
proof (induction items arbitrary: cols)
  case Nil
  then show ?case by simp
next
  case (Cons p items)
  obtain n i where p: "p = (n, i)" by (cases p)
  let ?cols1 = "cols[n := color_map ! i]"
  have d: "distinct (map fst items)" and nfresh: "n \<notin> fst ` set items"
    using Cons.prems(1) p by simp_all
  have r: "\<forall>(k, j) \<in> set items. k < length ?cols1 \<and> j < length color_map"
    using Cons.prems(2) by auto
  from Cons.IH [OF d r] obtain cols' where
    c': "paint_coloring items color_map ?cols1 = Inr cols'" "length cols' = length cols"
      "\<forall>m < length cols. cols' ! m =
        (case map_of items m of None \<Rightarrow> ?cols1 ! m | Some j \<Rightarrow> color_map ! j)"
    by auto
  have nn: "map_of items n = None" using nfresh by (simp add: map_of_eq_None_iff)
  have "\<forall>m < length cols. cols' ! m =
        (case map_of (p # items) m of None \<Rightarrow> cols ! m | Some j \<Rightarrow> color_map ! j)"
  proof (intro allI impI)
    fix m assume m: "m < length cols"
    show "cols' ! m = (case map_of (p # items) m of None \<Rightarrow> cols ! m | Some j \<Rightarrow> color_map ! j)"
    proof (cases "m = n")
      case True
      with c'(3) m nn p show ?thesis by simp
    next
      case False
      with c'(3) m p show ?thesis by (simp split: option.split)
    qed
  qed
  moreover have "n < length cols" "i < length color_map" using Cons.prems(2) p by simp_all
  ultimately show ?case using c'(1,2) p by simp
qed

lemma get_color_map_result:
  assumes "TABLEAU_COLORS pal \<noteq> []"
  shows "\<exists>cm. get_color_map pal n = Inr cm \<and> length cm = n"
  using assms by (simp add: get_color_map_def Let_def)


lemma coloring_layer_result:
  assumes dr: "drawable a h" and len: "length cols = length (node_colors a)"
  shows "\<exists>c1. coloring_layer a cols = Inr c1 \<and> length c1 = length cols \<and>
     (\<forall>m < length cols. c1 ! m =
        (case map_of (case current_coloring a of None \<Rightarrow> [] | Some cl \<Rightarrow> cl) m of
           None \<Rightarrow> cols ! m | Some i \<Rightarrow> coloring_color a i))"
proof (cases "current_coloring a")
  case None
  then show ?thesis by (simp add: coloring_layer_def)
next
  case (Some cl)
  show ?thesis
  proof (cases "cl = []")
    case True
    with Some show ?thesis by (simp add: coloring_layer_def)
  next
    case False
    let ?k = "fold max (map snd cl) 0 + 1"
    have tab: "TABLEAU_COLORS (app_palette a) \<noteq> []" using dr by (simp add: drawable_def)
    from get_color_map_result [OF tab, of ?k] obtain cm where
      cm: "get_color_map (app_palette a) ?k = Inr cm" "length cm = ?k" by blast
    have d: "distinct (map fst cl)" using dr Some by (simp add: drawable_def)
    have inr: "\<forall>(n, i) \<in> set cl. n < length cols \<and> i < length cm"
    proof (clarify, intro conjI)
      fix n i assume ni: "(n, i) \<in> set cl"
      then have "n \<in> set (map fst cl)" by force
      with dr Some len show "n < length cols" by (auto simp: drawable_def)
      from ni have "i \<in> set (map snd cl)" by force
      then have "i \<le> fold max (map snd cl) 0" by (rule mem_le_fold_max)
      with cm(2) show "i < length cm" by simp
    qed
    from paint_coloring_result [OF d inr] obtain c1 where
      c1: "paint_coloring cl cm cols = Inr c1" "length c1 = length cols"
        "\<forall>m < length cols. c1 ! m =
           (case map_of cl m of None \<Rightarrow> cols ! m | Some i \<Rightarrow> cm ! i)"
      by blast
    have cc: "\<And>i. coloring_color a i = cm ! i"
      using Some cm(1) by (simp add: coloring_color_def)
    have "coloring_layer a cols = Inr c1"
      using Some False cm(1) c1(1) by (simp add: coloring_layer_def Let_def)
    with c1(2,3) Some cc show ?thesis by (simp cong: option.case_cong)
  qed
qed

lemma clique_layer_result:
  assumes dr: "drawable a h" and len: "length cols = length (node_colors a)"
  shows "\<exists>c2. clique_layer a cols = Inr c2 \<and> length c2 = length cols \<and>
     (\<forall>m < length cols. c2 ! m =
        (if m \<in> set (case clique_nodes a of None \<Rightarrow> [] | Some ns \<Rightarrow> ns) then ''red''
         else cols ! m))"
proof (cases "clique_nodes a")
  case None
  then show ?thesis by (simp add: clique_layer_def)
next
  case (Some ns)
  have "\<forall>n \<in> set ns. n < length cols" using dr Some len by (simp add: drawable_def)
  from paint_result [OF this, of "''red''"] Some show ?thesis
    by (simp add: clique_layer_def)
qed

lemma highlight_layer_result:
  assumes dr: "drawable a h" and len: "length cols = length (node_colors a)"
  shows "\<exists>c3. highlight_layer h cols = Inr c3 \<and> length c3 = length cols \<and>
     (\<forall>m < length cols. c3 ! m =
        (if m \<in> set (highlight_of h ''lightgreen'') then ''lightgreen''
         else if m \<in> set (highlight_of h ''gold'') then ''gold''
         else cols ! m))"
proof -
  have g: "\<forall>n \<in> set (highlight_of h ''gold''). n < length cols"
    using dr len by (simp add: drawable_def)
  from paint_result [OF g, of "''gold''"] obtain cg where
    cg: "paint (highlight_of h ''gold'') ''gold'' cols = Inr cg" "length cg = length cols"
      "\<forall>m < length cols. cg ! m = (if m \<in> set (highlight_of h ''gold'') then ''gold'' else cols ! m)"
    by blast
  have l: "\<forall>n \<in> set (highlight_of h ''lightgreen''). n < length cg"
    using dr len cg(2) by (simp add: drawable_def)
  from paint_result [OF l, of "''lightgreen''"] obtain c3 where
    c3: "paint (highlight_of h ''lightgreen'') ''lightgreen'' cg = Inr c3" "length c3 = length cg"
      "\<forall>m < length cg. c3 ! m =
         (if m \<in> set (highlight_of h ''lightgreen'') then ''lightgreen'' else cg ! m)"
    by blast
  have fin: "length c3 = length cols \<and>
     (\<forall>m < length cols. c3 ! m =
        (if m \<in> set (highlight_of h ''lightgreen'') then ''lightgreen''
         else if m \<in> set (highlight_of h ''gold'') then ''gold''
         else cols ! m))"
    using cg(2,3) c3(2,3) by simp
  show ?thesis
  proof (cases h)
    case None
    then show ?thesis by (simp add: highlight_layer_def highlight_of_def)
  next
    case (Some d)
    show ?thesis
    proof (cases "d = []")
      case True
      with Some show ?thesis by (simp add: highlight_layer_def highlight_of_def dict_get_def)
    next
      case False
      with Some cg(1) c3(1) have "highlight_layer h cols = Inr c3"
        by (simp add: highlight_layer_def highlight_of_def)
      with fin show ?thesis by blast
    qed
  qed
qed

lemma compose_colors_result:
  assumes dr: "drawable a h"
  shows "\<exists>cols. compose_colors a h = Inr cols \<and> length cols = length (node_colors a) \<and>
     (\<forall>n < length (node_colors a). cols ! n = layered_color a h n)"
proof -
  from coloring_layer_result [OF dr refl] obtain c1 where
    c1: "coloring_layer a (node_colors a) = Inr c1" "length c1 = length (node_colors a)"
      "\<forall>m < length (node_colors a). c1 ! m =
        (case map_of (case current_coloring a of None \<Rightarrow> [] | Some cl \<Rightarrow> cl) m of
           None \<Rightarrow> node_colors a ! m | Some i \<Rightarrow> coloring_color a i)"
    by blast
  from clique_layer_result [OF dr c1(2)] obtain c2 where
    c2: "clique_layer a c1 = Inr c2" "length c2 = length c1"
      "\<forall>m < length c1. c2 ! m =
        (if m \<in> set (case clique_nodes a of None \<Rightarrow> [] | Some ns \<Rightarrow> ns) then ''red''
         else c1 ! m)"
    by blast
  have l2: "length c2 = length (node_colors a)" using c1(2) c2(2) by simp
  from highlight_layer_result [OF dr l2] obtain c3 where
    c3: "highlight_layer h c2 = Inr c3" "length c3 = length c2"
      "\<forall>m < length c2. c3 ! m =
        (if m \<in> set (highlight_of h ''lightgreen'') then ''lightgreen''
         else if m \<in> set (highlight_of h ''gold'') then ''gold''
         else c2 ! m)"
    by blast
  have "compose_colors a h = Inr c3" using c1(1) c2(1) c3(1) by (simp add: compose_colors_def)
  moreover have "length c3 = length (node_colors a)" using c3(2) l2 by simp
  moreover have "\<forall>n < length (node_colors a). c3 ! n = layered_color a h n"
  proof (intro allI impI)
    fix n assume n: "n < length (node_colors a)"
    from c1(3) n have 1: "c1 ! n =
        (case map_of (case current_coloring a of None \<Rightarrow> [] | Some cl \<Rightarrow> cl) n of
           None \<Rightarrow> node_colors a ! n | Some i \<Rightarrow> coloring_color a i)"
      by blast
    from n c1(2) have "n < length c1" by (simp only:)
    with c2(3) have 2: "c2 ! n =
        (if n \<in> set (case clique_nodes a of None \<Rightarrow> [] | Some ns \<Rightarrow> ns) then ''red''
         else c1 ! n)"
      by blast
    from n l2 have "n < length c2" by (simp only:)
    with c3(3) have 3: "c3 ! n =
        (if n \<in> set (highlight_of h ''lightgreen'') then ''lightgreen''
         else if n \<in> set (highlight_of h ''gold'') then ''gold''
         else c2 ! n)"
      by blast
    show "c3 ! n = layered_color a h n"
      by (simp only: layered_color_def 1 2 3)
  qed
  ultimately show ?thesis by blast
qed

text \<open>
  Claim C4. A draw request that can be served paints every node by the fixed layering: the
  base colour, overridden by the colour derived from the colouring for a coloured node,
  overridden by the clique colour for a clique member, overridden by the step highlights.
  A later layer wins, so a coloured clique member is drawn in the clique colour and a step
  highlight shows over both.
\<close>

theorem draw_graph_layering:
  assumes "drawable a highlight_nodes"
  shows "\<exists>cols. draw_graph a highlight_nodes title = Inr (a\<lparr>canvas := canvas a @ [(cols, title)]\<rparr>) \<and>
           length cols = length (node_colors a) \<and>
           (\<forall>n < length (node_colors a). cols ! n = layered_color a highlight_nodes n)"
proof -
  from compose_colors_result [OF assms] obtain cols where
    "compose_colors a highlight_nodes = Inr cols" "length cols = length (node_colors a)"
    "\<forall>n < length (node_colors a). cols ! n = layered_color a highlight_nodes n"
    by blast
  then show ?thesis by (intro exI [of _ cols]) (simp add: draw_graph_def)
qed

theorem draw_graph_layering_witness:
  "drawable app4 highlight4 \<and>
   draw_graph app4 highlight4 ''Step'' =
     Inr (app4\<lparr>canvas := [([''#1f77b4'', ''red'', ''gold'', ''lightgreen''], ''Step'')]\<rparr>) \<and>
   (\<exists>cols. draw_graph app4 highlight4 ''Step'' =
        Inr (app4\<lparr>canvas := canvas app4 @ [(cols, ''Step'')]\<rparr>) \<and>
      length cols = length (node_colors app4) \<and>
      (\<forall>n < length (node_colors app4). cols ! n = layered_color app4 highlight4 n))"
proof -
  have dr: "drawable app4 highlight4" by code_simp
  have ev: "draw_graph app4 highlight4 ''Step'' =
     Inr (app4\<lparr>canvas := [([''#1f77b4'', ''red'', ''gold'', ''lightgreen''], ''Step'')]\<rparr>)"
    by code_simp
  from dr ev draw_graph_layering [OF dr, of "''Step''"] show ?thesis by blast
qed

section \<open>The graph without nodes\<close>

lemma contract_empty_graph:
  assumes "find_cliques_contract [] cliques"
  shows "cliques = []"
proof (cases cliques)
  case Nil
  then show ?thesis .
next
  case (Cons c cs)
  with assms have "c \<noteq> []" "maximal_clique [] (set c)"
    by (simp_all add: find_cliques_contract_def)
  then show ?thesis by (simp add: maximal_clique_def is_clique_def nodes_def)
qed

text \<open>
  Claim C8, as stated, fails: on the graph without nodes the traversals raise
  \<^verbatim>\<open>NetworkXError\<close>, since the start node is not in the graph, and
  \<^verbatim>\<open>find_max_clique\<close> raises \<^verbatim>\<open>ValueError\<close>, since \<^verbatim>\<open>max\<close> gets an empty list.
\<close>

theorem empty_graph_counterexample:
  "bfs_with_depth [] 0 = Inl NetworkXError \<and> dfs_with_depth [] 0 = Inl NetworkXError \<and>
   find_max_clique no_cliques [] = Inl ValueError"
  by (simp add: bfs_with_depth_def dfs_with_depth_def neighbors_def find_max_clique_def
        max_by_len_def no_cliques_def)

text \<open>
  Claim C8, amended. On the graph without nodes, cycle detection returns \<open>False\<close> and the
  greedy colouring returns the empty mapping; a traversal from any start node fails with
  \<^verbatim>\<open>NetworkXError\<close>, and \<^verbatim>\<open>find_max_clique\<close> fails with \<^verbatim>\<open>ValueError\<close>.
\<close>

theorem empty_graph_results:
  assumes "find_cliques_contract [] (find_cliques [])"
  shows "has_cycle [] = Inr False \<and> greedy_coloring [] = Inr [] \<and>
         bfs_with_depth [] start = Inl NetworkXError \<and>
         dfs_with_depth [] start = Inl NetworkXError \<and>
         find_max_clique find_cliques [] = Inl ValueError"
proof -
  from contract_empty_graph [OF assms] have "find_max_clique find_cliques [] = Inl ValueError"
    by (simp add: find_max_clique_def max_by_len_def)
  then show ?thesis
    by (simp add: has_cycle_def greedy_coloring_def nodes_def bfs_with_depth_def
          dfs_with_depth_def neighbors_def)
qed

theorem empty_graph_results_witness:
  "find_cliques_contract [] (no_cliques []) \<and>
   has_cycle [] = Inr False \<and> greedy_coloring [] = Inr [] \<and>
   bfs_with_depth [] 0 = Inl NetworkXError \<and>
   dfs_with_depth [] 0 = Inl NetworkXError \<and>
   find_max_clique no_cliques [] = Inl ValueError"
proof -
  have c: "find_cliques_contract [] (no_cliques [])"
    by (auto simp: find_cliques_contract_def maximal_clique_def is_clique_def nodes_def
          no_cliques_def)
  from c empty_graph_results [of no_cliques 0, OF c] show ?thesis by simp
qed

section \<open>Properties of the actions\<close>

lemma busy4_reachable:
  "(case run_bfs idle4 of
      Inl e \<Rightarrow> False
    | Inr a1 \<Rightarrow>
        (case check_clique cycle4_cliques a1 of
           Inl e \<Rightarrow> False
         | Inr a2 \<Rightarrow> a2\<lparr>log_text := [], canvas := []\<rparr> = busy4))"
  by code_simp

text \<open>
  Claim C3. \<^verbatim>\<open>run_bfs\<close> clears the colouring and the clique highlight before
  \<^verbatim>\<open>animate_traversal\<close> tests whether an animation is running. In the state
  \<open>busy4\<close> the call is rejected with the notice, the running animation and the node
  colours stay, and yet the clique highlight is gone.
\<close>

theorem run_bfs_rejected_clears_highlight:
  "clique_nodes busy4 = Some [0, 1] \<and> anim_thread_alive busy4 \<and>
   (case run_bfs busy4 of
      Inl e \<Rightarrow> False
    | Inr a \<Rightarrow>
        last (log_text a) = ''Animation is already running. Wait until it finishes.'' \<and>
        anim a = anim busy4 \<and> node_colors a = node_colors busy4 \<and>
        clique_nodes a = None)"
  by code_simp

lemma animate_traversal_rejected:
  "anim_thread_alive a \<Longrightarrow>
   animate_traversal a order mode =
     log_msg a ''Animation is already running. Wait until it finishes.''"
  by (simp add: animate_traversal_def)

section \<open>Properties of the animation\<close>


lemma coloring_color_canvas: "coloring_color (a\<lparr>canvas := c\<rparr>) i = coloring_color a i"
  by (cases "current_coloring a") (simp_all add: coloring_color_def)

lemma layered_color_canvas: "layered_color (a\<lparr>canvas := c\<rparr>) h n = layered_color a h n"
  unfolding layered_color_def coloring_color_canvas
  by (cases "clique_nodes a"; cases "current_coloring a") (simp_all split: option.split)

lemma layered_colors_canvas [simp]:
  "layered_colors (a\<lparr>canvas := c\<rparr>) h = layered_colors a h"
  by (simp add: layered_colors_def layered_color_canvas)

lemma drawable_canvas [simp]: "drawable (a\<lparr>canvas := c\<rparr>) h = drawable a h"
  by (simp add: drawable_def split: option.split)





















end
